theory Spec2Isabelle
  imports Complex_Main "HOL-Library.Sublist" "HOL-Library.Multiset"
begin

section \<open>JavaScript values\<close>

text \<open>
  A value that arrives in a JSON request body. A number is a finite IEEE double, kept
  here by its exact value, which is a rational; JSON has no literal for NaN.
\<close>

datatype jsval =
    JUndefined
  | JNull
  | JBool bool
  | JNum rat
  | JStr string
  | JArr "jsval list"
  | JObj "(string \<times> jsval) list"

text \<open>The truth value of \<^verbatim>\<open>if (v)\<close>.\<close>

fun truthy :: "jsval \<Rightarrow> bool" where
  "truthy JUndefined = False"
| "truthy JNull = False"
| "truthy (JBool b) = b"
| "truthy (JNum q) = (q \<noteq> 0)"
| "truthy (JStr s) = (s \<noteq> [])"
| "truthy (JArr _) = True"
| "truthy (JObj _) = True"

text \<open>
  The numbers of the pagination arithmetic: what \<^verbatim>\<open>parseInt\<close> returns is an integer or
  NaN, and NaN is absorbing in \<^verbatim>\<open>Math.max\<close>, \<^verbatim>\<open>Math.min\<close>, \<^verbatim>\<open>-\<close>, \<^verbatim>\<open>*\<close> and \<^verbatim>\<open>+\<close>.
  Integers are kept exact: the host rounds to a double beyond \<open>2^53\<close> and gives Infinity
  for very long digit strings, both far past every index of the catalog.
\<close>

datatype jsnum = NaN | Num int

fun Math_max :: "int \<Rightarrow> jsnum \<Rightarrow> jsnum" where
  "Math_max a NaN = NaN"
| "Math_max a (Num b) = Num (max a b)"

fun Math_min :: "int \<Rightarrow> jsnum \<Rightarrow> jsnum" where
  "Math_min a NaN = NaN"
| "Math_min a (Num b) = Num (min a b)"

fun num_minus :: "jsnum \<Rightarrow> int \<Rightarrow> jsnum" where
  "num_minus NaN b = NaN"
| "num_minus (Num a) b = Num (a - b)"

fun num_times :: "jsnum \<Rightarrow> jsnum \<Rightarrow> jsnum" where
  "num_times (Num a) (Num b) = Num (a * b)"
| "num_times _ _ = NaN"

fun num_plus :: "jsnum \<Rightarrow> jsnum \<Rightarrow> jsnum" where
  "num_plus (Num a) (Num b) = Num (a + b)"
| "num_plus _ _ = NaN"

text \<open>\<^verbatim>\<open>a < n\<close>: every comparison with NaN is false.\<close>

fun num_less :: "jsnum \<Rightarrow> nat \<Rightarrow> bool" where
  "num_less NaN n = False"
| "num_less (Num a) n = (a < int n)"

section \<open>Strings\<close>

text \<open>
  Strings are byte strings, and case and white space are those of ASCII. The host's
  \<^verbatim>\<open>trim\<close> and \<^verbatim>\<open>parseInt\<close> also skip the white space outside ASCII (U+00A0, U+FEFF,
  U+2028, U+2029 and the space separators), and its \<^verbatim>\<open>toLowerCase\<close> folds every cased
  letter; on strings with such characters \<open>trim\<close>, \<open>toLowerCase\<close> and \<open>parseInt\<close> below
  are not the host's.
\<close>

definition isWhiteSpace :: "char \<Rightarrow> bool" where
  "isWhiteSpace c = (let n = (of_char c :: nat) in (9 \<le> n \<and> n \<le> 13) \<or> n = 32)"

definition toLowerChar :: "char \<Rightarrow> char" where
  "toLowerChar c =
     (let n = (of_char c :: nat) in if 65 \<le> n \<and> n \<le> 90 then char_of (n + 32) else c)"

definition toLowerCase :: "string \<Rightarrow> string" where
  "toLowerCase s = map toLowerChar s"

definition trim :: "string \<Rightarrow> string" where
  "trim s = rev (dropWhile isWhiteSpace (rev (dropWhile isWhiteSpace s)))"

text \<open>\<^verbatim>\<open>s.includes(t)\<close>: \<open>t\<close> occurs in \<open>s\<close> at some position.\<close>

fun includes_str :: "string \<Rightarrow> string \<Rightarrow> bool" where
  "includes_str [] t = (t = [])"
| "includes_str (c # s) t = (prefix t (c # s) \<or> includes_str s t)"

text \<open>The decimal numeral of a non-negative integer, as a template literal renders it.\<close>

definition digitChar :: "nat \<Rightarrow> char" where
  "digitChar d = char_of (48 + d)"

fun toString :: "nat \<Rightarrow> string" where
  "toString n = (if n < 10 then [digitChar n] else toString (n div 10) @ [digitChar (n mod 10)])"

declare toString.simps [simp del]

text \<open>
  \<^verbatim>\<open>parseInt(string)\<close> with no radix: leading white space is skipped, a sign is read,
  the prefix \<^verbatim>\<open>0x\<close> selects radix 16, and the longest run of digits is the value; no digit
  at all gives NaN.
\<close>

definition digitValue :: "char \<Rightarrow> nat option" where
  "digitValue c =
     (let n = (of_char c :: nat) in
      if 48 \<le> n \<and> n \<le> 57 then Some (n - 48)
      else if 97 \<le> n \<and> n \<le> 122 then Some (n - 87)
      else if 65 \<le> n \<and> n \<le> 90 then Some (n - 55)
      else None)"

definition isDigitIn :: "nat \<Rightarrow> char \<Rightarrow> bool" where
  "isDigitIn R c = (case digitValue c of None \<Rightarrow> False | Some d \<Rightarrow> d < R)"

definition mathInt :: "nat \<Rightarrow> string \<Rightarrow> nat" where
  "mathInt R z = foldl (\<lambda>acc c. case digitValue c of None \<Rightarrow> acc | Some d \<Rightarrow> acc * R + d) 0 z"

definition parseInt :: "string \<Rightarrow> jsnum" where
  "parseInt inputString =
     (let s0 = dropWhile isWhiteSpace inputString;
          sign = (if s0 \<noteq> [] \<and> hd s0 = CHR ''-'' then - 1 else (1::int));
          s1 = (if s0 \<noteq> [] \<and> (hd s0 = CHR ''+'' \<or> hd s0 = CHR ''-'') then tl s0 else s0);
          hex = (take 2 s1 = ''0x'' \<or> take 2 s1 = ''0X'');
          R = (if hex then 16 else 10);
          s2 = (if hex then drop 2 s1 else s1);
          z = takeWhile (isDigitIn R) s2
      in if z = [] then NaN else Num (sign * int (mathInt R z)))"

text \<open>
  A parsed query-string value: a string, or, for a repeated or bracketed key, an array or
  an object. \<^verbatim>\<open>parseInt\<close> first converts its argument to a string; an object is taken
  to have no own key \<^verbatim>\<open>toString\<close>, so that it has the string of every plain object.
\<close>

datatype qval = QStr string | QArr "qval list" | QObj "(string \<times> qval) list"

fun joinComma :: "string list \<Rightarrow> string" where
  "joinComma [] = []"
| "joinComma [s] = s"
| "joinComma (s # t # ss) = s @ '','' @ joinComma (t # ss)"

fun qToString :: "qval \<Rightarrow> string" where
  "qToString (QStr s) = s"
| "qToString (QArr vs) = joinComma (map qToString vs)"
| "qToString (QObj _) = ''[object Object]''"

section \<open>Application state (server.js, lines 17-25)\<close>

record cache_entry =
  entry_ids :: "jsval list"
  entry_total :: nat

text \<open>
  \<open>customOrder\<close> is \<^verbatim>\<open>null\<close> (\<open>None\<close>) or the array stored by the last accepted
  update. \<open>selectedItems\<close> is a \<^verbatim>\<open>Set\<close>, kept as the list of its members in insertion
  order, which is its iteration order. \<open>searchCache\<close> is a \<^verbatim>\<open>Map\<close> from search terms.
\<close>

record state =
  customOrder :: "jsval list option"
  selectedItems :: "jsval list"
  searchCache :: "string \<rightharpoonup> cache_entry"

definition initial_state :: state where
  "initial_state = \<lparr>customOrder = None, selectedItems = [], searchCache = Map.empty\<rparr>"

section \<open>generateItem (server.js, lines 27-32)\<close>

text \<open>
  The text of an item is the template literal \<^verbatim>\<open>Item ${id}\<close>, kept as its literal part
  and the value that fills its hole.
\<close>

datatype template = Template string jsval

record item =
  item_id :: jsval
  item_text :: template
  item_selected :: bool

definition generateItem :: "state \<Rightarrow> jsval \<Rightarrow> item" where
  "generateItem st i =
     \<lparr>item_id = i, item_text = Template ''Item '' i, item_selected = (i \<in> set (selectedItems st))\<rparr>"

section \<open>applyCustomOrder (server.js, lines 34-57)\<close>

text \<open>First loop: over the custom order, with \<open>orderedIds\<close> and \<open>remainingIds\<close>.\<close>

fun customFirst :: "'a list \<Rightarrow> 'a list \<Rightarrow> 'a set \<Rightarrow> 'a list \<times> 'a set" where
  "customFirst [] orderedIds remainingIds = (orderedIds, remainingIds)"
| "customFirst (i # rest) orderedIds remainingIds =
     (if i \<in> remainingIds
      then customFirst rest (orderedIds @ [i]) (remainingIds - {i})
      else customFirst rest orderedIds remainingIds)"

text \<open>Second loop: over the ids, in their original order.\<close>

fun remainingLast :: "'a list \<Rightarrow> 'a list \<Rightarrow> 'a set \<Rightarrow> 'a list" where
  "remainingLast [] orderedIds remainingIds = orderedIds"
| "remainingLast (i # rest) orderedIds remainingIds =
     (if i \<in> remainingIds
      then remainingLast rest (orderedIds @ [i]) remainingIds
      else remainingLast rest orderedIds remainingIds)"

definition applyCustomOrder :: "state \<Rightarrow> jsval list \<Rightarrow> jsval list" where
  "applyCustomOrder st ids =
     (case customOrder st of
        None \<Rightarrow> ids
      | Some order \<Rightarrow>
          (case customFirst order [] (set ids) of
             (orderedIds, remainingIds) \<Rightarrow> remainingLast ids orderedIds remainingIds))"

section \<open>The comparator sort of the earlier server (part_000, lines 91-102)\<close>

text \<open>\<^verbatim>\<open>order.indexOf(x)\<close>: the first position of \<open>x\<close>, or \<open>-1\<close>.\<close>

fun indexOfFrom :: "nat \<Rightarrow> 'a list \<Rightarrow> 'a \<Rightarrow> int" where
  "indexOfFrom k [] x = - 1"
| "indexOfFrom k (y # ys) x = (if y = x then int k else indexOfFrom (Suc k) ys x)"

definition indexOf :: "'a list \<Rightarrow> 'a \<Rightarrow> int" where
  "indexOf xs x = indexOfFrom 0 xs x"

definition compareIds :: "'a list \<Rightarrow> 'a \<Rightarrow> 'a \<Rightarrow> int" where
  "compareIds order a b =
     (let aIndex = indexOf order a; bIndex = indexOf order b in
      if aIndex = - 1 \<and> bIndex = - 1 then 0
      else if aIndex = - 1 then 1
      else if bIndex = - 1 then - 1
      else aIndex - bIndex)"

text \<open>
  \<^verbatim>\<open>Array.prototype.sort\<close> with a comparator is a stable sort: an element goes before
  the first element that the comparator does not put before it.
\<close>

fun insertBy :: "('a \<Rightarrow> 'a \<Rightarrow> int) \<Rightarrow> 'a \<Rightarrow> 'a list \<Rightarrow> 'a list" where
  "insertBy cmp x [] = [x]"
| "insertBy cmp x (y # ys) = (if cmp x y \<le> 0 then x # y # ys else y # insertBy cmp x ys)"

definition sortBy :: "('a \<Rightarrow> 'a \<Rightarrow> int) \<Rightarrow> 'a list \<Rightarrow> 'a list" where
  "sortBy cmp xs = foldr (insertBy cmp) xs []"

text \<open>The earlier handler sorts the items, here by their ids, when an order is set.\<close>

definition sortByOrder :: "jsval list option \<Rightarrow> jsval list \<Rightarrow> jsval list" where
  "sortByOrder order ids =
     (case order of None \<Rightarrow> ids | Some ord \<Rightarrow> sortBy (compareIds ord) ids)"

section \<open>POST /api/update-order (server.js, lines 131-163)\<close>

datatype error =
    Order_must_be_an_array
  | Invalid_ID jsval
  | Duplicate_ID jsval
  | Failed_to_update_order
  | Invalid_item_ID
  | Internal_server_error

text \<open>\<^verbatim>\<open>typeof id !== 'number' || id < 1 || id > 1000000\<close>\<close>

fun invalidId :: "jsval \<Rightarrow> bool" where
  "invalidId (JNum q) = (q < 1 \<or> q > 1000000)"
| "invalidId _ = True"

text \<open>
  The message \<^verbatim>\<open>`Invalid ID: ${id}`\<close> converts the element to a string. For an object
  with an own property \<^verbatim>\<open>toString\<close>, which in a JSON value is never a function, the
  conversion throws a TypeError; so it does for an array with such an element, since an
  array is joined element by element. Every other JSON value has a string.
\<close>

fun toStringThrows :: "jsval \<Rightarrow> bool" where
  "toStringThrows (JObj kvs) = (''toString'' \<in> fst ` set kvs)"
| "toStringThrows (JArr vs) = (\<exists>v\<in>set vs. toStringThrows v)"
| "toStringThrows _ = False"

text \<open>
  The validation loop, with the set \<open>idSet\<close> of the ids seen so far. When building the
  message of an invalid element throws, the handler's \<^verbatim>\<open>catch\<close> (lines 159-162)
  answers with status 500 and \<^verbatim>\<open>Failed to update order\<close>.
\<close>

fun validateOrder :: "jsval set \<Rightarrow> jsval list \<Rightarrow> error option" where
  "validateOrder idSet [] = None"
| "validateOrder idSet (i # rest) =
     (if invalidId i
      then (if toStringThrows i then Some Failed_to_update_order else Some (Invalid_ID i))
      else if i \<in> idSet then Some (Duplicate_ID i)
      else validateOrder (insert i idSet) rest)"

text \<open>The success reply carries \<^verbatim>\<open>order.length\<close> in its message.\<close>

datatype order_reply = Order_updated nat

definition setOrder :: "state \<Rightarrow> jsval \<Rightarrow> (error + order_reply) \<times> state" where
  "setOrder st order =
     (case order of
        JArr ids \<Rightarrow>
          (case validateOrder {} ids of
             Some e \<Rightarrow> (Inl e, st)
           | None \<Rightarrow>
               (Inr (Order_updated (length ids)),
                st\<lparr>customOrder := Some ids, searchCache := Map.empty\<rparr>))
      | _ \<Rightarrow> (Inl Order_must_be_an_array, st))"

section \<open>POST /api/update-selection (server.js, lines 165-189)\<close>

record selection_reply =
  sel_selected :: jsval
  sel_selectedCount :: nat

definition setSelected :: "state \<Rightarrow> jsval \<Rightarrow> jsval \<Rightarrow> (error + selection_reply) \<times> state" where
  "setSelected st i selected =
     (if invalidId i then (Inl Invalid_item_ID, st)
      else
        (let items' =
               (if truthy selected
                then (if i \<in> set (selectedItems st) then selectedItems st
                      else selectedItems st @ [i])
                else filter (\<lambda>j. j \<noteq> i) (selectedItems st))
         in (Inr \<lparr>sel_selected = selected, sel_selectedCount = length items'\<rparr>,
             st\<lparr>selectedItems := items'\<rparr>)))"

section \<open>GET /api/state (server.js, lines 191-198)\<close>

record state_reply =
  state_selected :: "jsval list"
  state_selectedCount :: nat
  hasCustomOrder :: bool

definition getState :: "state \<Rightarrow> state_reply" where
  "getState st =
     \<lparr>state_selected = selectedItems st,
      state_selectedCount = length (selectedItems st),
      hasCustomOrder = (customOrder st \<noteq> None)\<rparr>"

section \<open>GET /api/items (server.js, lines 61-130)\<close>

text \<open>
  The search loop (lines 80-86): \<open>id\<close> runs from its start to \<open>lastId\<close>; a matching id is
  pushed, and the loop breaks once \<open>matchIds\<close> holds \<open>cap\<close> ids. The handler runs it from 1
  to 1000000 with the cap 1000.
\<close>

definition pushIfMatch :: "string \<Rightarrow> nat \<Rightarrow> nat list \<Rightarrow> nat list" where
  "pushIfMatch searchTerm i matchIds =
     (if includes_str (toString i) searchTerm then matchIds @ [i] else matchIds)"

function scan :: "string \<Rightarrow> nat \<Rightarrow> nat \<Rightarrow> nat \<Rightarrow> nat list \<Rightarrow> nat list" where
  "scan searchTerm lastId cap i matchIds =
     (if i \<le> lastId
      then (if length (pushIfMatch searchTerm i matchIds) \<ge> cap
            then pushIfMatch searchTerm i matchIds
            else scan searchTerm lastId cap (i + 1) (pushIfMatch searchTerm i matchIds))
      else matchIds)"
  by pat_completeness auto
termination
  by (relation "measure (\<lambda>(searchTerm, lastId, cap, i, matchIds). lastId + 1 - i)") auto

declare scan.simps [simp del]

definition idNum :: "nat \<Rightarrow> jsval" where
  "idNum i = JNum (of_nat i)"

text \<open>Lines 73-90: the cached entry on a hit; on a miss the scan, stored under the term.\<close>

definition searchIds :: "state \<Rightarrow> string \<Rightarrow> cache_entry \<times> state" where
  "searchIds st searchTerm =
     (case searchCache st searchTerm of
        Some cache \<Rightarrow> (cache, st)
      | None \<Rightarrow>
          (let matchIds = map idNum (scan searchTerm 1000000 1000 1 []);
               entry = \<lparr>entry_ids = matchIds, entry_total = length matchIds\<rparr>
           in (entry, st\<lparr>searchCache := (searchCache st)(searchTerm \<mapsto> entry)\<rparr>)))"

text \<open>\<^verbatim>\<open>Array.from({ length: 1000000 }, (_, i) => i + 1)\<close>\<close>

definition universe :: "jsval list" where
  "universe = map (\<lambda>i. idNum (i + 1)) [0..<1000000]"

text \<open>Lines 69-101: the ids to page through and the total, with the state after.\<close>

definition selectIds :: "state \<Rightarrow> string \<Rightarrow> (jsval list \<times> nat) \<times> state" where
  "selectIds st searchTerm =
     (if searchTerm \<noteq> []
      then (case searchIds st searchTerm of
              (cache, st') \<Rightarrow> ((entry_ids cache, entry_total cache), st'))
      else (case customOrder st of
              Some order \<Rightarrow>
                (if length order > 0 then ((order, length order), st)
                 else ((universe, 1000000), st))
            | None \<Rightarrow> ((universe, 1000000), st)))"

text \<open>
  \<^verbatim>\<open>xs.slice(start, end)\<close>: NaN counts as 0, a negative index counts from the end, and
  both indices are clamped to the length.
\<close>

fun toIntegerOrInfinity :: "jsnum \<Rightarrow> int" where
  "toIntegerOrInfinity NaN = 0"
| "toIntegerOrInfinity (Num a) = a"

definition sliceIndex :: "nat \<Rightarrow> jsnum \<Rightarrow> nat" where
  "sliceIndex len v =
     (let r = toIntegerOrInfinity v in
      if r < 0 then nat (max (int len + r) 0) else min (nat r) len)"

definition slice :: "'a list \<Rightarrow> jsnum \<Rightarrow> jsnum \<Rightarrow> 'a list" where
  "slice xs start final =
     (let k = sliceIndex (length xs) start; fin = sliceIndex (length xs) final
      in take (fin - k) (drop k xs))"

record response =
  resp_items :: "item list"
  resp_total :: nat
  resp_hasMore :: bool
  resp_page :: jsnum
  resp_limit :: nat

text \<open>A query parameter with its default: \<^verbatim>\<open>parseInt\<close> of the value, or of the default.\<close>

definition queryInt :: "nat \<Rightarrow> qval option \<Rightarrow> jsnum" where
  "queryInt dflt v =
     (case v of None \<Rightarrow> parseInt (toString dflt) | Some q \<Rightarrow> parseInt (qToString q))"

text \<open>
  \<^verbatim>\<open>search.toLowerCase().trim()\<close>: only a string has the method; for an array or an
  object the call throws, which the handler's \<^verbatim>\<open>catch\<close> answers with status 500.
\<close>

fun normalizeSearch :: "qval option \<Rightarrow> string option" where
  "normalizeSearch None = Some (trim (toLowerCase []))"
| "normalizeSearch (Some (QStr s)) = Some (trim (toLowerCase s))"
| "normalizeSearch (Some _) = None"

definition listItems ::
  "state \<Rightarrow> qval option \<Rightarrow> qval option \<Rightarrow> qval option \<Rightarrow> (error + response) \<times> state" where
  "listItems st page limit search =
     (let pageNum = Math_max 1 (queryInt 1 page);
          limitNum = Math_max 1 (Math_min 100 (queryInt 20 limit))
      in case normalizeSearch search of
           None \<Rightarrow> (Inl Internal_server_error, st)
         | Some searchTerm \<Rightarrow>
             (case selectIds st searchTerm of
                ((itemIds, totalN), st') \<Rightarrow>
                  (let startIndex = num_times (num_minus pageNum 1) limitNum;
                       endIndex = num_plus startIndex limitNum;
                       resultIds = slice itemIds startIndex endIndex;
                       items = map (generateItem st') resultIds
                   in (Inr \<lparr>resp_items = items,
                             resp_total = totalN,
                             resp_hasMore = num_less endIndex totalN,
                             resp_page = pageNum,
                             resp_limit = length items\<rparr>,
                       st'))))"

section \<open>Reachable states\<close>

text \<open>The states of a run: the handlers applied, in any order, from the initial state.\<close>

inductive reachable :: "state \<Rightarrow> bool" where
  reach_init: "reachable initial_state"
| reach_items: "reachable st \<Longrightarrow> reachable (snd (listItems st page limit search))"
| reach_order: "reachable st \<Longrightarrow> reachable (snd (setOrder st order))"
| reach_selection: "reachable st \<Longrightarrow> reachable (snd (setSelected st i selected))"

section \<open>Notions used in the statements\<close>

text \<open>The matching rule: the decimal numeral of the id contains the term.\<close>

definition matches :: "string \<Rightarrow> nat \<Rightarrow> bool" where
  "matches searchTerm i = sublist searchTerm (toString i)"

text \<open>The first 1000 matching ids of 1..1000000, ascending.\<close>

definition firstMatches :: "string \<Rightarrow> nat list" where
  "firstMatches searchTerm = take 1000 (filter (matches searchTerm) [1..<1000001])"

text \<open>Every cached entry is the one the scan computes for its term.\<close>

definition cacheSound :: "state \<Rightarrow> bool" where
  "cacheSound st =
     (\<forall>t e. searchCache st t = Some e \<longrightarrow>
        e = \<lparr>entry_ids = map idNum (firstMatches t), entry_total = length (firstMatches t)\<rparr>)"

text \<open>The position of the first occurrence of \<open>x\<close> in \<open>xs\<close>, or the length of \<open>xs\<close>.\<close>

definition position :: "'a list \<Rightarrow> 'a \<Rightarrow> nat" where
  "position xs x = length (takeWhile (\<lambda>y. y \<noteq> x) xs)"

text \<open>The page, the limit and the two slice indices the handler computes (lines 65-66, 103-104).\<close>

definition pageNumOf :: "qval option \<Rightarrow> jsnum" where
  "pageNumOf page = Math_max 1 (queryInt 1 page)"

definition limitNumOf :: "qval option \<Rightarrow> jsnum" where
  "limitNumOf limit = Math_max 1 (Math_min 100 (queryInt 20 limit))"

definition startIndexOf :: "qval option \<Rightarrow> qval option \<Rightarrow> jsnum" where
  "startIndexOf page limit = num_times (num_minus (pageNumOf page) 1) (limitNumOf limit)"

definition endIndexOf :: "qval option \<Rightarrow> qval option \<Rightarrow> jsnum" where
  "endIndexOf page limit = num_plus (startIndexOf page limit) (limitNumOf limit)"

text \<open>
  Element \<open>k\<close> of an order is offending when it is not a number in the range 1..1000000
  or repeats an earlier element.
\<close>

definition offending :: "jsval list \<Rightarrow> nat \<Rightarrow> bool" where
  "offending ids k = (invalidId (ids ! k) \<or> ids ! k \<in> set (take k ids))"


section \<open>The search scan\<close>

lemma includes_str_sublist: "includes_str s t \<longleftrightarrow> sublist t s"
  by (induction s) (auto simp: sublist_Cons_right)

lemma pushIfMatch_eq: "pushIfMatch t i acc = acc @ filter (matches t) [i]"
  by (simp add: pushIfMatch_def matches_def includes_str_sublist)

lemma scan_closed:
  "length acc < cap \<Longrightarrow>
   scan t lastId cap i acc = acc @ take (cap - length acc) (filter (matches t) [i..<Suc lastId])"
proof (induction t lastId cap i acc rule: scan.induct)
  case (1 t lastId cap i acc)
  show ?case
  proof (cases "i \<le> lastId")
    case False
    then show ?thesis by (simp add: scan.simps)
  next
    case True
    then have upt: "[i..<Suc lastId] = i # [i + 1..<Suc lastId]"
      by (simp add: upt_conv_Cons)
    show ?thesis
    proof (cases "cap \<le> length (pushIfMatch t i acc)")
      case True
      with 1(2) have m: "matches t i" and c: "cap - length acc = Suc 0"
        by (auto simp: pushIfMatch_eq split: if_splits)
      from True \<open>i \<le> lastId\<close> have "scan t lastId cap i acc = pushIfMatch t i acc"
        by (subst scan.simps) simp
      with m c show ?thesis
        by (simp add: upt pushIfMatch_eq del: upt_Suc)
    next
      case False
      then have lt: "length (pushIfMatch t i acc) < cap" by simp
      have d: "cap - length acc = Suc (cap - Suc (length acc))"
        using 1(2) by simp
      from False \<open>i \<le> lastId\<close>
      have "scan t lastId cap i acc = scan t lastId cap (i + 1) (pushIfMatch t i acc)"
        by (subst scan.simps) simp
      also have "\<dots> = pushIfMatch t i acc @
          take (cap - length (pushIfMatch t i acc)) (filter (matches t) [i + 1..<Suc lastId])"
        using 1(1) [OF \<open>i \<le> lastId\<close> False lt] .
      also have "\<dots> = acc @ take (cap - length acc) (filter (matches t) [i..<Suc lastId])"
        by (cases "matches t i") (simp_all add: upt pushIfMatch_eq d del: upt_Suc)
      finally show ?thesis .
    qed
  qed
qed

text \<open>The loop stops at the id whose push fills the cap.\<close>

lemma scan_break:
  "i \<le> lastId \<Longrightarrow> cap \<le> length (pushIfMatch t i acc) \<Longrightarrow>
   scan t lastId cap i acc = pushIfMatch t i acc"
  by (subst scan.simps) simp

lemma scan_small: "scan ''1'' 30 5 1 [] = [1, 10, 11, 12, 13]"
  by code_simp

section \<open>The two-pass merge and the comparator sort\<close>

lemma customFirst_closed:
  "distinct order \<Longrightarrow>
   customFirst order acc R = (acc @ filter (\<lambda>i. i \<in> R) order, R - set order)"
proof (induction order arbitrary: acc R)
  case Nil
  then show ?case by simp
next
  case (Cons i rest)
  then have "filter (\<lambda>j. j \<in> R - {i}) rest = filter (\<lambda>j. j \<in> R) rest"
    by (intro filter_cong) auto
  with Cons show ?case by auto
qed

lemma remainingLast_closed:
  "remainingLast ids acc R = acc @ filter (\<lambda>i. i \<in> R) ids"
  by (induction ids arbitrary: acc) auto

lemma applyCustomOrder_closed:
  assumes "customOrder st = Some order" "distinct order"
  shows "applyCustomOrder st ids =
         filter (\<lambda>i. i \<in> set ids) order @ filter (\<lambda>i. i \<notin> set order) ids"
proof -
  have "filter (\<lambda>i. i \<in> set ids - set order) ids = filter (\<lambda>i. i \<notin> set order) ids"
    by (intro filter_cong) auto
  with assms show ?thesis
    by (simp add: applyCustomOrder_def customFirst_closed remainingLast_closed)
qed

lemma mset_partition_by_order:
  assumes "distinct ids" "distinct order"
  shows "mset (filter (\<lambda>i. i \<in> set ids) order @ filter (\<lambda>i. i \<notin> set order) ids) = mset ids"
proof -
  have "mset (filter (\<lambda>i. i \<in> set ids) order) = mset (filter (\<lambda>i. i \<in> set order) ids)"
    using assms by (intro set_eq_iff_mset_eq_distinct [THEN iffD1]) auto
  then show ?thesis by simp
qed

lemma indexOfFrom_position:
  "indexOfFrom k xs x = (if x \<in> set xs then int (k + position xs x) else - 1)"
  by (induction xs arbitrary: k) (auto simp: position_def)

lemma indexOf_position:
  "indexOf xs x = (if x \<in> set xs then int (position xs x) else - 1)"
  by (simp add: indexOf_def indexOfFrom_position)

lemma position_less: "x \<in> set xs \<Longrightarrow> position xs x < length xs"
  unfolding position_def by (induction xs) auto

lemma position_absent: "x \<notin> set xs \<Longrightarrow> position xs x = length xs"
  unfolding position_def by (induction xs) auto

lemma compareIds_position:
  "compareIds order a b \<le> 0 \<longleftrightarrow> position order a \<le> position order b"
  using position_less [of a order] position_less [of b order]
  by (auto simp: compareIds_def indexOf_position position_absent)

lemma insertBy_insort_key:
  "insertBy (compareIds order) x xs = insort_key (position order) x xs"
  by (induction xs) (auto simp: compareIds_position)

lemma sortBy_sort_key: "sortBy (compareIds order) xs = sort_key (position order) xs"
  by (induction xs) (simp_all add: sortBy_def insertBy_insort_key)

lemma position_nth: "distinct xs \<Longrightarrow> i < length xs \<Longrightarrow> position xs (xs ! i) = i"
proof (induction xs arbitrary: i)
  case Nil
  then show ?case by simp
next
  case (Cons a xs)
  then show ?case
    by (cases i) (auto simp: position_def)
qed

lemma sorted_position: "distinct xs \<Longrightarrow> sorted (map (position xs) xs)"
  by (simp add: sorted_iff_nth_mono position_nth)

lemma sorted_position_filter: "distinct xs \<Longrightarrow> sorted (map (position xs) (filter P xs))"
  using sorted_position [of xs] sorted_filter [of "position xs" xs P] by simp

lemma sorted_partition_by_order:
  assumes "distinct order"
  shows "sorted (map (position order)
           (filter (\<lambda>i. i \<in> set ids) order @ filter (\<lambda>i. i \<notin> set order) ids))"
proof -
  have "\<forall>x\<in>set (filter (\<lambda>i. i \<in> set ids) order). \<forall>y\<in>set (filter (\<lambda>i. i \<notin> set order) ids).
          position order x \<le> position order y"
    using position_less [of _ order] by (auto simp: position_absent intro: less_imp_le)
  moreover have "sorted (map (position order) (filter (\<lambda>i. i \<notin> set order) ids))"
  proof -
    have "map (position order) (filter (\<lambda>i. i \<notin> set order) ids) =
          replicate (length (filter (\<lambda>i. i \<notin> set order) ids)) (length order)"
      by (simp add: map_replicate_const [symmetric] position_absent cong: map_cong)
    then show ?thesis by simp
  qed
  ultimately show ?thesis
    using assms by (simp add: sorted_append sorted_position_filter)
qed

lemma nth_position: "position xs x < length xs \<Longrightarrow> xs ! position xs x = x"
  unfolding position_def using nth_length_takeWhile [of "\<lambda>y. y \<noteq> x" xs] by simp

lemma position_inj: "x \<in> set xs \<Longrightarrow> position xs x = position xs y \<Longrightarrow> x = y"
  using nth_position [of xs x] nth_position [of xs y] position_less [of x xs] by simp

lemma filter_eq_distinct:
  "distinct xs \<Longrightarrow> filter (\<lambda>x. x = k) xs = (if k \<in> set xs then [k] else [])"
  by (induction xs) auto

lemma position_eq_present:
  "k \<in> set order \<Longrightarrow> (position order k = position order x) = (x = k)"
  using position_inj [of k order x] by auto

lemma position_eq_absent:
  "k \<notin> set order \<Longrightarrow> (position order k = position order x) = (x \<notin> set order)"
  using position_less [of x order] by (auto simp: position_absent)

lemma stable_partition_by_order:
  assumes "distinct ids" "distinct order"
    and k: "k \<in> set (filter (\<lambda>i. i \<in> set ids) order @ filter (\<lambda>i. i \<notin> set order) ids)"
  shows "filter (\<lambda>x. position order k = position order x)
           (filter (\<lambda>i. i \<in> set ids) order @ filter (\<lambda>i. i \<notin> set order) ids) =
         filter (\<lambda>x. position order k = position order x) ids"
proof (cases "k \<in> set order")
  case True
  let ?ys = "filter (\<lambda>i. i \<in> set ids) order @ filter (\<lambda>i. i \<notin> set order) ids"
  from True k have "k \<in> set ids" by auto
  moreover from assms(1,2) have "distinct ?ys" by auto
  ultimately have "filter (\<lambda>x. x = k) ?ys = filter (\<lambda>x. x = k) ids"
    using k assms(1) by (simp only: filter_eq_distinct if_True)
  with True show ?thesis
    by (simp only: position_eq_present)
next
  case False
  then show ?thesis
    by (simp add: position_eq_absent)
qed

lemma sortBy_partition:
  assumes "distinct ids" "distinct order"
  shows "sortBy (compareIds order) ids =
         filter (\<lambda>i. i \<in> set ids) order @ filter (\<lambda>i. i \<notin> set order) ids"
  unfolding sortBy_sort_key
  by (rule properties_for_sort_key)
     (use assms in \<open>simp_all only: mset_partition_by_order stable_partition_by_order
        sorted_partition_by_order\<close>)

section \<open>Claims about the order resolver\<close>

text \<open>
  Claim C5. For distinct candidate ids, \<open>applyCustomOrder\<close> returns the ids unchanged
  when no custom order is set; with a custom order of distinct ids it returns the ids of
  the custom order that occur among the candidates, in the custom order's order,
  followed by the other candidates in their original relative order, and the result has
  the same multiset of ids as the candidates.
\<close>

theorem applyCustomOrder_permutation:
  assumes "distinct ids"
  shows "(customOrder st = None \<longrightarrow> applyCustomOrder st ids = ids) \<and>
         (\<forall>order. customOrder st = Some order \<and> distinct order \<longrightarrow>
            applyCustomOrder st ids =
              filter (\<lambda>i. i \<in> set ids) order @ filter (\<lambda>i. i \<notin> set order) ids \<and>
            mset (applyCustomOrder st ids) = mset ids)"
proof (intro conjI allI impI)
  assume "customOrder st = None"
  then show "applyCustomOrder st ids = ids"
    by (simp add: applyCustomOrder_def)
next
  fix order
  assume "customOrder st = Some order \<and> distinct order"
  then show "applyCustomOrder st ids =
      filter (\<lambda>i. i \<in> set ids) order @ filter (\<lambda>i. i \<notin> set order) ids"
    by (simp add: applyCustomOrder_closed)
next
  fix order
  assume "customOrder st = Some order \<and> distinct order"
  with assms show "mset (applyCustomOrder st ids) = mset ids"
    by (simp only: applyCustomOrder_closed mset_partition_by_order)
qed

text \<open>The custom order 5, 3, 9 applied to the candidates 1..5, and no custom order.\<close>

theorem applyCustomOrder_permutation_witness:
  "distinct [JNum 1, JNum 2, JNum 3, JNum 4, JNum 5] \<and>
   distinct [JNum 5, JNum 3, JNum 9] \<and>
   applyCustomOrder (initial_state\<lparr>customOrder := Some [JNum 5, JNum 3, JNum 9]\<rparr>)
     [JNum 1, JNum 2, JNum 3, JNum 4, JNum 5] = [JNum 5, JNum 3, JNum 1, JNum 2, JNum 4] \<and>
   mset (applyCustomOrder (initial_state\<lparr>customOrder := Some [JNum 5, JNum 3, JNum 9]\<rparr>)
     [JNum 1, JNum 2, JNum 3, JNum 4, JNum 5]) = mset [JNum 1, JNum 2, JNum 3, JNum 4, JNum 5] \<and>
   applyCustomOrder initial_state [JNum 2, JNum 1] = [JNum 2, JNum 1]"
  using applyCustomOrder_permutation
          [of "[JNum 1, JNum 2, JNum 3, JNum 4, JNum 5]"
              "initial_state\<lparr>customOrder := Some [JNum 5, JNum 3, JNum 9]\<rparr>"]
        applyCustomOrder_permutation [of "[JNum 2, JNum 1]" initial_state]
  by (simp add: initial_state_def)

text \<open>
  Claim C10. For distinct candidate ids and a custom order of distinct ids, the two-pass
  merge of the current server and the stable comparator sort of the earlier server give
  the same sequence; with no order set both return the candidates as they are.
\<close>

theorem applyCustomOrder_eq_sortByOrder:
  assumes "distinct ids" and "\<forall>order. customOrder st = Some order \<longrightarrow> distinct order"
  shows "applyCustomOrder st ids = sortByOrder (customOrder st) ids"
proof (cases "customOrder st")
  case None
  then show ?thesis by (simp add: applyCustomOrder_def sortByOrder_def)
next
  case (Some order)
  with assms show ?thesis
    by (simp add: applyCustomOrder_closed sortBy_partition sortByOrder_def)
qed

text \<open>Both give 5, 3, 1, 2, 4 for the custom order 5, 3, 9 and the candidates 1..5.\<close>

theorem applyCustomOrder_eq_sortByOrder_witness:
  "distinct [JNum 1, JNum 2, JNum 3, JNum 4, JNum 5] \<and>
   distinct [JNum 5, JNum 3, JNum 9] \<and>
   applyCustomOrder (initial_state\<lparr>customOrder := Some [JNum 5, JNum 3, JNum 9]\<rparr>)
     [JNum 1, JNum 2, JNum 3, JNum 4, JNum 5] =
   sortByOrder (Some [JNum 5, JNum 3, JNum 9]) [JNum 1, JNum 2, JNum 3, JNum 4, JNum 5] \<and>
   sortByOrder (Some [JNum 5, JNum 3, JNum 9]) [JNum 1, JNum 2, JNum 3, JNum 4, JNum 5] =
     [JNum 5, JNum 3, JNum 1, JNum 2, JNum 4]"
  using applyCustomOrder_eq_sortByOrder
          [of "[JNum 1, JNum 2, JNum 3, JNum 4, JNum 5]"
              "initial_state\<lparr>customOrder := Some [JNum 5, JNum 3, JNum 9]\<rparr>"]
  by (simp add: initial_state_def sortByOrder_def sortBy_def compareIds_def indexOf_def)

section \<open>The search cache\<close>

lemma scan_firstMatches: "scan t 1000000 1000 1 [] = firstMatches t"
  using scan_closed [of "[]" 1000 t 1000000 1] by (simp add: firstMatches_def)

lemma scan_firstMatches_Suc: "scan t 1000000 1000 (Suc 0) [] = firstMatches t"
  using scan_firstMatches [of t] by simp

lemma searchIds_hit: "searchCache st t = Some e \<Longrightarrow> searchIds st t = (e, st)"
  by (simp add: searchIds_def)

lemma searchIds_miss:
  "searchCache st t = None \<Longrightarrow>
   searchIds st t =
     (\<lparr>entry_ids = map idNum (firstMatches t), entry_total = length (firstMatches t)\<rparr>,
      st\<lparr>searchCache := (searchCache st)
          (t \<mapsto> \<lparr>entry_ids = map idNum (firstMatches t), entry_total = length (firstMatches t)\<rparr>)\<rparr>)"
  by (simp add: searchIds_def scan_firstMatches_Suc Let_def)

lemma cacheSound_searchIds: "cacheSound st \<Longrightarrow> cacheSound (snd (searchIds st t))"
  by (cases "searchCache st t") (auto simp: searchIds_hit searchIds_miss cacheSound_def)

lemma searchIds_sound:
  "cacheSound st \<Longrightarrow>
   fst (searchIds st t) =
     \<lparr>entry_ids = map idNum (firstMatches t), entry_total = length (firstMatches t)\<rparr>"
  by (cases "searchCache st t") (auto simp: searchIds_hit searchIds_miss cacheSound_def)

lemma snd_selectIds:
  "snd (selectIds st t) = (if t = [] then st else snd (searchIds st t))"
  by (simp add: selectIds_def split: prod.splits option.splits)

lemma cacheSound_selectIds: "cacheSound st \<Longrightarrow> cacheSound (snd (selectIds st t))"
  by (simp add: snd_selectIds cacheSound_searchIds)

lemma snd_listItems:
  "snd (listItems st page limit search) =
     (case normalizeSearch search of None \<Rightarrow> st | Some t \<Rightarrow> snd (selectIds st t))"
  by (simp add: listItems_def Let_def split: option.splits prod.splits)

lemma cacheSound_listItems: "cacheSound st \<Longrightarrow> cacheSound (snd (listItems st page limit search))"
  by (simp add: snd_listItems cacheSound_selectIds split: option.splits)

lemma cacheSound_setOrder: "cacheSound st \<Longrightarrow> cacheSound (snd (setOrder st order))"
  by (auto simp: setOrder_def cacheSound_def split: jsval.splits option.splits)

lemma cacheSound_setSelected: "cacheSound st \<Longrightarrow> cacheSound (snd (setSelected st i selected))"
  by (auto simp: setSelected_def cacheSound_def Let_def)

lemma reachable_cacheSound: "reachable st \<Longrightarrow> cacheSound st"
proof (induction rule: reachable.induct)
  case reach_init
  show ?case by (simp add: cacheSound_def initial_state_def)
qed (simp_all add: cacheSound_listItems cacheSound_setOrder cacheSound_setSelected)

lemma digitChar_simps:
  "digitChar 0 = CHR ''0''" "digitChar 1 = CHR ''1''" "digitChar 2 = CHR ''2''"
  "digitChar 3 = CHR ''3''" "digitChar 4 = CHR ''4''" "digitChar 5 = CHR ''5''"
  "digitChar 6 = CHR ''6''" "digitChar 7 = CHR ''7''" "digitChar 8 = CHR ''8''"
  "digitChar 9 = CHR ''9''" "digitChar (Suc 0) = CHR ''1''"
  by code_simp+

lemma toString_examples:
  "toString 7 = ''7''" "toString 20 = ''20''" "toString 1000000 = ''1000000''"
  by (simp_all add: toString.simps digitChar_simps)

section \<open>Claims about the search index\<close>

text \<open>
  Claim C4. In every state of a run and for every non-empty (normalized) search term, the
  ids and the total that the handler pages through are the first 1000 ids of 1..1000000,
  ascending, whose decimal numeral contains the term, and the number of those ids.
\<close>

theorem search_first_matches:
  assumes "reachable st" and "searchTerm \<noteq> []"
  shows "fst (selectIds st searchTerm) =
           (map idNum (take 1000 (filter (\<lambda>i. sublist searchTerm (toString i)) [1..<1000001])),
            length (take 1000 (filter (\<lambda>i. sublist searchTerm (toString i)) [1..<1000001])))"
proof -
  have "fst (selectIds st searchTerm) =
          (entry_ids (fst (searchIds st searchTerm)), entry_total (fst (searchIds st searchTerm)))"
    using assms(2) by (simp add: selectIds_def split: prod.splits)
  also have "\<dots> = (map idNum (firstMatches searchTerm), length (firstMatches searchTerm))"
    using reachable_cacheSound [OF assms(1)] by (simp add: searchIds_sound)
  finally show ?thesis
    unfolding firstMatches_def matches_def [abs_def] .
qed

text \<open>The term 7 in the initial state.\<close>

theorem search_first_matches_witness:
  "reachable initial_state \<and> ''7'' \<noteq> [] \<and>
   fst (selectIds initial_state ''7'') =
     (map idNum (take 1000 (filter (\<lambda>i. sublist ''7'' (toString i)) [1..<1000001])),
      length (take 1000 (filter (\<lambda>i. sublist ''7'' (toString i)) [1..<1000001])))"
proof -
  have r: "reachable initial_state" by (rule reach_init)
  have n: "''7'' \<noteq> []" by simp
  from r n search_first_matches [OF r n] show ?thesis by (intro conjI)
qed

text \<open>
  Claim C3. A search whose term is in the cache returns the stored entry as it is and
  leaves the state unchanged, so a repeated search returns the same entry again; for a
  non-empty term the handler pages through exactly that entry. Every accepted order
  update leaves the cache empty, and the next search for any term runs the scan and
  stores its result.
\<close>

theorem search_cache_memoizes:
  "(searchCache st t = Some e \<longrightarrow> searchIds st t = (e, st)) \<and>
   searchIds (snd (searchIds st t)) t = (fst (searchIds st t), snd (searchIds st t)) \<and>
   (t \<noteq> [] \<longrightarrow>
      selectIds st t =
        ((entry_ids (fst (searchIds st t)), entry_total (fst (searchIds st t))),
         snd (searchIds st t))) \<and>
   (\<forall>r. fst (setOrder st order) = Inr r \<longrightarrow>
      searchCache (snd (setOrder st order)) = Map.empty \<and>
      searchIds (snd (setOrder st order)) t =
        (\<lparr>entry_ids = map idNum (scan t 1000000 1000 1 []),
          entry_total = length (scan t 1000000 1000 1 [])\<rparr>,
         (snd (setOrder st order))
           \<lparr>searchCache := [t \<mapsto> \<lparr>entry_ids = map idNum (scan t 1000000 1000 1 []),
                                  entry_total = length (scan t 1000000 1000 1 [])\<rparr>]\<rparr>))"
proof (intro conjI allI impI)
  assume "searchCache st t = Some e"
  then show "searchIds st t = (e, st)" by (rule searchIds_hit)
next
  show "searchIds (snd (searchIds st t)) t = (fst (searchIds st t), snd (searchIds st t))"
    by (cases "searchCache st t") (simp_all add: searchIds_def Let_def)
next
  assume "t \<noteq> []"
  then show "selectIds st t =
        ((entry_ids (fst (searchIds st t)), entry_total (fst (searchIds st t))),
         snd (searchIds st t))"
    by (simp add: selectIds_def split: prod.splits)
next
  fix r
  assume ok: "fst (setOrder st order) = Inr r"
  then show empty: "searchCache (snd (setOrder st order)) = Map.empty"
    by (auto simp: setOrder_def split: jsval.splits option.splits)
  then show "searchIds (snd (setOrder st order)) t =
        (\<lparr>entry_ids = map idNum (scan t 1000000 1000 1 []),
          entry_total = length (scan t 1000000 1000 1 [])\<rparr>,
         (snd (setOrder st order))
           \<lparr>searchCache := [t \<mapsto> \<lparr>entry_ids = map idNum (scan t 1000000 1000 1 []),
                                  entry_total = length (scan t 1000000 1000 1 [])\<rparr>]\<rparr>)"
    by (simp add: searchIds_def Let_def)
qed

text \<open>
  A search for 7 from the initial state, repeated, and then the order 5, 3, 9.
\<close>

theorem search_cache_memoizes_witness:
  "searchCache (snd (searchIds initial_state ''7'')) ''7'' = Some (fst (searchIds initial_state ''7'')) \<and>
   searchIds (snd (searchIds initial_state ''7'')) ''7'' =
     (fst (searchIds initial_state ''7''), snd (searchIds initial_state ''7'')) \<and>
   ''7'' \<noteq> [] \<and>
   selectIds (snd (searchIds initial_state ''7'')) ''7'' =
     ((entry_ids (fst (searchIds initial_state ''7'')),
       entry_total (fst (searchIds initial_state ''7''))),
      snd (searchIds initial_state ''7'')) \<and>
   fst (setOrder (snd (searchIds initial_state ''7'')) (JArr [JNum 5, JNum 3, JNum 9])) =
     Inr (Order_updated 3) \<and>
   searchCache (snd (setOrder (snd (searchIds initial_state ''7'')) (JArr [JNum 5, JNum 3, JNum 9])))
     ''7'' = None"
proof -
  let ?st = "snd (searchIds initial_state ''7'')"
  let ?e = "fst (searchIds initial_state ''7'')"
  let ?order = "JArr [JNum 5, JNum 3, JNum 9]"
  have hit: "searchCache ?st ''7'' = Some ?e"
    by (simp add: searchIds_def initial_state_def Let_def)
  have ok: "fst (setOrder ?st ?order) = Inr (Order_updated 3)"
    by (simp add: setOrder_def)
  have ne: "''7'' \<noteq> []" by simp
  note m = search_cache_memoizes [of ?st "''7''" ?e ?order]
  from m hit have 1: "searchIds ?st ''7'' = (?e, ?st)" by blast
  from m ne have 2: "selectIds ?st ''7'' = ((entry_ids ?e, entry_total ?e), ?st)"
    by (simp only: 1 fst_conv snd_conv) blast
  from m ok have 3: "searchCache (snd (setOrder ?st ?order)) = Map.empty" by blast
  from hit 1 ne 2 ok 3 show ?thesis by simp
qed

section \<open>Paging\<close>

lemma slice_map: "slice (map f xs) a b = map f (slice xs a b)"
  by (simp add: slice_def Let_def take_map drop_map)

lemma slice_NaN: "slice xs NaN b = take (sliceIndex (length xs) b) xs"
  by (simp add: slice_def sliceIndex_def)

lemma slice_Num:
  "0 \<le> s \<Longrightarrow> 0 \<le> l \<Longrightarrow> slice xs (Num s) (Num (s + l)) = take (nat l) (drop (nat s) xs)"
  by (auto simp: slice_def sliceIndex_def Let_def min_def nat_add_distrib)

lemma length_universe: "length universe = 1000000"
  by (simp add: universe_def)

lemma universe_upt: "universe = map idNum [1..<1000001]"
  unfolding universe_def
  by (rule nth_equalityI) (simp_all del: upt_rec_numeral add: nth_append)

lemma selectedItems_selectIds: "selectedItems (snd (selectIds st t)) = selectedItems st"
  by (simp add: selectIds_def searchIds_def Let_def split: option.splits)

lemma customOrder_selectIds: "customOrder (snd (selectIds st t)) = customOrder st"
  by (simp add: selectIds_def searchIds_def Let_def split: option.splits)

lemma generateItem_cong:
  "selectedItems st' = selectedItems st \<Longrightarrow> generateItem st' = generateItem st"
  by (simp add: generateItem_def fun_eq_iff)

lemma item_id_generateItem: "map item_id (map (generateItem st) xs) = xs"
  by (induction xs) (simp_all add: generateItem_def)

lemma listItems_Some:
  assumes "normalizeSearch search = Some t"
  shows "listItems st page limit search =
    (Inr \<lparr>resp_items = map (generateItem st)
              (slice (fst (fst (selectIds st t))) (startIndexOf page limit) (endIndexOf page limit)),
          resp_total = snd (fst (selectIds st t)),
          resp_hasMore = num_less (endIndexOf page limit) (snd (fst (selectIds st t))),
          resp_page = pageNumOf page,
          resp_limit = length
              (slice (fst (fst (selectIds st t))) (startIndexOf page limit) (endIndexOf page limit))\<rparr>,
     snd (selectIds st t))"
proof -
  have g: "generateItem (snd (selectIds st t)) = generateItem st"
    by (rule generateItem_cong) (rule selectedItems_selectIds)
  obtain ids n st' where s: "selectIds st t = ((ids, n), st')"
    by (metis prod.collapse)
  with g have g': "generateItem st' = generateItem st" by simp
  show ?thesis
    using assms
    by (simp add: listItems_def Let_def s g' startIndexOf_def endIndexOf_def pageNumOf_def
        limitNumOf_def)
qed

lemma listItems_None:
  "normalizeSearch search = None \<Longrightarrow>
   listItems st page limit search = (Inl Internal_server_error, st)"
  by (simp add: listItems_def Let_def)

lemma queryInt_examples:
  "queryInt 1 None = Num 1" "queryInt 20 None = Num 20"
  "queryInt 1 (Some (QStr ''1'')) = Num 1" "queryInt 1 (Some (QStr ''2'')) = Num 2"
  "queryInt 20 (Some (QStr ''5'')) = Num 5"
  "queryInt 1 (Some (QStr ''abc'')) = NaN" "queryInt 20 (Some (QStr ''abc'')) = NaN"
  by (simp_all add: queryInt_def toString.simps digitChar_simps parseInt_def isWhiteSpace_def
      isDigitIn_def digitValue_def mathInt_def)

lemma queryInt_examples_Suc:
  "queryInt (Suc 0) None = Num 1"
  "queryInt (Suc 0) (Some (QStr ''1'')) = Num 1" "queryInt (Suc 0) (Some (QStr ''2'')) = Num 2"
  "queryInt (Suc 0) (Some (QStr ''abc'')) = NaN"
  using queryInt_examples by simp_all

lemma normalizeSearch_examples:
  "normalizeSearch None = Some []" "normalizeSearch (Some (QStr '''')) = Some []"
  "normalizeSearch (Some (QStr ''7'')) = Some ''7''"
  by (simp_all add: trim_def toLowerCase_def toLowerChar_def isWhiteSpace_def)

lemma setOrder_539:
  "setOrder st (JArr [JNum 5, JNum 3, JNum 9]) =
     (Inr (Order_updated 3), st\<lparr>customOrder := Some [JNum 5, JNum 3, JNum 9], searchCache := Map.empty\<rparr>)"
  by (simp add: setOrder_def)

lemma page_examples:
  "pageNumOf None = Num 1" "pageNumOf (Some (QStr ''1'')) = Num 1"
  "pageNumOf (Some (QStr ''2'')) = Num 2" "pageNumOf (Some (QStr ''abc'')) = NaN"
  "limitNumOf None = Num 20" "limitNumOf (Some (QStr ''5'')) = Num 5"
  "limitNumOf (Some (QStr ''abc'')) = NaN"
  by (simp_all add: pageNumOf_def limitNumOf_def queryInt_examples queryInt_examples_Suc)

lemma listItems_custom_539:
  "listItems (st\<lparr>customOrder := Some [JNum 5, JNum 3, JNum 9], searchCache := Map.empty\<rparr>)
     (Some (QStr ''1'')) (Some (QStr ''5'')) (Some (QStr '''')) =
   (Inr \<lparr>resp_items = map (generateItem st) [JNum 5, JNum 3, JNum 9],
         resp_total = 3, resp_hasMore = False, resp_page = Num 1, resp_limit = 3\<rparr>,
    st\<lparr>customOrder := Some [JNum 5, JNum 3, JNum 9], searchCache := Map.empty\<rparr>)"
proof -
  let ?st = "st\<lparr>customOrder := Some [JNum 5, JNum 3, JNum 9], searchCache := Map.empty\<rparr>"
  have sel: "selectIds ?st [] = (([JNum 5, JNum 3, JNum 9], 3), ?st)"
    by (simp add: selectIds_def)
  have g: "generateItem ?st = generateItem st"
    by (rule generateItem_cong) simp
  have sl: "slice [JNum 5, JNum 3, JNum 9] (Num 0) (Num 5) = [JNum 5, JNum 3, JNum 9]"
    by (simp add: slice_def sliceIndex_def)
  show ?thesis
    by (simp add: listItems_Some [OF normalizeSearch_examples(2)] sel g
        startIndexOf_def endIndexOf_def page_examples sl)
qed

section \<open>Order validation\<close>

lemma invalidId_iff: "invalidId v \<longleftrightarrow> \<not> (\<exists>q. v = JNum q \<and> 1 \<le> q \<and> q \<le> 1000000)"
  by (cases v) auto

lemma validateOrder_None:
  "validateOrder S ids = None \<longleftrightarrow>
     (\<forall>v\<in>set ids. \<not> invalidId v) \<and> distinct ids \<and> set ids \<inter> S = {}"
  by (induction ids arbitrary: S) auto

lemma validateOrder_first:
  "k < length ids \<Longrightarrow>
   invalidId (ids ! k) \<or> ids ! k \<in> S \<union> set (take k ids) \<Longrightarrow>
   \<forall>j<k. \<not> (invalidId (ids ! j) \<or> ids ! j \<in> S \<union> set (take j ids)) \<Longrightarrow>
   validateOrder S ids =
     Some (if invalidId (ids ! k)
           then (if toStringThrows (ids ! k) then Failed_to_update_order
                 else Invalid_ID (ids ! k))
           else Duplicate_ID (ids ! k))"
proof (induction ids arbitrary: S k)
  case Nil
  then show ?case by simp
next
  case (Cons a ids)
  show ?case
  proof (cases k)
    case 0
    with Cons.prems show ?thesis by auto
  next
    case (Suc k')
    from Cons.prems(3) Suc have a: "\<not> invalidId a" "a \<notin> S"
      by (auto dest: spec [of _ 0])
    have 1: "k' < length ids" using Cons.prems(1) Suc by simp
    have 2: "invalidId (ids ! k') \<or> ids ! k' \<in> insert a S \<union> set (take k' ids)"
      using Cons.prems(2) Suc by auto
    have 3: "\<forall>j<k'. \<not> (invalidId (ids ! j) \<or> ids ! j \<in> insert a S \<union> set (take j ids))"
    proof (intro allI impI)
      fix j assume "j < k'"
      then have "Suc j < k" using Suc by simp
      with Cons.prems(3) show "\<not> (invalidId (ids ! j) \<or> ids ! j \<in> insert a S \<union> set (take j ids))"
        by (auto dest!: spec [of _ "Suc j"])
    qed
    from Cons.IH [OF 1 2 3] a Suc show ?thesis by simp
  qed
qed

text \<open>
  What the order update does. It succeeds exactly when the order is an array with no
  repeated element whose every element is a number between 1 and 1000000, integer or not.
  For an array it fails at the first element that is not such a number or repeats an
  earlier one; the error names that element, unless the element has no string, and then
  the answer is the generic failure. On every failure the state is the one before the
  call.
\<close>

lemma setOrder_outcomes:
  "(fst (setOrder st order) = Inr (Order_updated n) \<longleftrightarrow>
      (\<exists>ids. order = JArr ids \<and> n = length ids \<and> distinct ids \<and>
         (\<forall>v\<in>set ids. \<exists>q. v = JNum q \<and> 1 \<le> q \<and> q \<le> 1000000))) \<and>
   (\<forall>ids k. order = JArr ids \<and> k < length ids \<and> offending ids k \<and> (\<forall>j<k. \<not> offending ids j) \<longrightarrow>
      fst (setOrder st order) =
        Inl (if invalidId (ids ! k)
             then (if toStringThrows (ids ! k) then Failed_to_update_order
                   else Invalid_ID (ids ! k))
             else Duplicate_ID (ids ! k))) \<and>
   (\<forall>e. fst (setOrder st order) = Inl e \<longrightarrow> snd (setOrder st order) = st)"
proof (intro conjI allI impI)
  show "fst (setOrder st order) = Inr (Order_updated n) \<longleftrightarrow>
      (\<exists>ids. order = JArr ids \<and> n = length ids \<and> distinct ids \<and>
         (\<forall>v\<in>set ids. \<exists>q. v = JNum q \<and> 1 \<le> q \<and> q \<le> 1000000))"
  proof (cases order)
    case (JArr ids)
    have "(\<forall>v\<in>set ids. \<exists>q. v = JNum q \<and> 1 \<le> q \<and> q \<le> 1000000) \<longleftrightarrow>
          (\<forall>v\<in>set ids. \<not> invalidId v)"
      by (auto simp: invalidId_iff)
    with JArr show ?thesis
      using validateOrder_None [of "{}" ids]
      by (cases "validateOrder {} ids") (auto simp: setOrder_def)
  qed (simp_all add: setOrder_def)
next
  fix ids k
  assume h: "order = JArr ids \<and> k < length ids \<and> offending ids k \<and> (\<forall>j<k. \<not> offending ids j)"
  then have "validateOrder {} ids =
     Some (if invalidId (ids ! k)
           then (if toStringThrows (ids ! k) then Failed_to_update_order
                 else Invalid_ID (ids ! k))
           else Duplicate_ID (ids ! k))"
    by (intro validateOrder_first) (simp_all add: offending_def)
  with h show "fst (setOrder st order) =
        Inl (if invalidId (ids ! k)
             then (if toStringThrows (ids ! k) then Failed_to_update_order
                   else Invalid_ID (ids ! k))
             else Duplicate_ID (ids ! k))"
    by (simp add: setOrder_def)
next
  fix e
  assume "fst (setOrder st order) = Inl e"
  then show "snd (setOrder st order) = st"
    by (auto simp: setOrder_def split: jsval.splits option.splits)
qed

text \<open>A repeated element and an element out of range, each named by the error.\<close>

lemma setOrder_outcomes_examples:
  "setOrder initial_state (JArr [JNum 2, JNum 7, JNum 2]) =
     (Inl (Duplicate_ID (JNum 2)), initial_state)"
  "setOrder initial_state (JArr [JNum 2, JNum 0, JNum 2]) =
     (Inl (Invalid_ID (JNum 0)), initial_state)"
  "setOrder initial_state (JArr [JNum 2, JStr ''7'']) =
     (Inl (Invalid_ID (JStr ''7'')), initial_state)"
  "setOrder initial_state (JObj [(''length'', JNum 0)]) =
     (Inl Order_must_be_an_array, initial_state)"
  by (simp_all add: setOrder_def)

lemma listItems_custom_fraction:
  "listItems (st\<lparr>customOrder := Some [JNum (3 / 2)], searchCache := Map.empty\<rparr>)
     None None None =
   (Inr \<lparr>resp_items = [generateItem st (JNum (3 / 2))],
         resp_total = 1, resp_hasMore = False, resp_page = Num 1, resp_limit = 1\<rparr>,
    st\<lparr>customOrder := Some [JNum (3 / 2)], searchCache := Map.empty\<rparr>)"
proof -
  let ?st = "st\<lparr>customOrder := Some [JNum (3 / 2)], searchCache := Map.empty\<rparr>"
  have sel: "selectIds ?st [] = (([JNum (3 / 2)], 1), ?st)"
    by (simp add: selectIds_def)
  have g: "generateItem ?st = generateItem st"
    by (rule generateItem_cong) simp
  have sl: "slice [JNum (3 / 2)] (Num 0) (Num 20) = [JNum (3 / 2)]"
    by (simp add: slice_def sliceIndex_def)
  show ?thesis
    by (simp add: listItems_Some [OF normalizeSearch_examples(1)] sel g
        startIndexOf_def endIndexOf_def page_examples sl)
qed

section \<open>Claims about the order update\<close>

text \<open>
  Claim C2, at the inputs that refute it. The order whose only element is 1.5, which is
  not an integer, is accepted and stored, and the listing then serves an item with the
  id 1.5. The order whose only element is an object with an own property
  \<^verbatim>\<open>toString\<close> is rejected with the generic failure, which names no element; the
  state is unchanged.
\<close>

theorem setOrder_accepts_non_integer:
  "setOrder initial_state (JArr [JNum (3 / 2)]) =
     (Inr (Order_updated 1),
      initial_state\<lparr>customOrder := Some [JNum (3 / 2)], searchCache := Map.empty\<rparr>) \<and>
   fst (listItems (snd (setOrder initial_state (JArr [JNum (3 / 2)]))) None None None) =
     Inr \<lparr>resp_items =
            [\<lparr>item_id = JNum (3 / 2), item_text = Template ''Item '' (JNum (3 / 2)),
              item_selected = False\<rparr>],
          resp_total = 1, resp_hasMore = False, resp_page = Num 1, resp_limit = 1\<rparr> \<and>
   setOrder initial_state (JArr [JObj [(''toString'', JNum 1)]]) =
     (Inl Failed_to_update_order, initial_state)"
proof -
  have accepted: "setOrder initial_state (JArr [JNum (3 / 2)]) =
     (Inr (Order_updated 1),
      initial_state\<lparr>customOrder := Some [JNum (3 / 2)], searchCache := Map.empty\<rparr>)"
    by (simp add: setOrder_def)
  have item: "generateItem initial_state (JNum (3 / 2)) =
      \<lparr>item_id = JNum (3 / 2), item_text = Template ''Item '' (JNum (3 / 2)),
       item_selected = False\<rparr>"
    by (simp add: generateItem_def initial_state_def)
  have served: "fst (listItems (snd (setOrder initial_state (JArr [JNum (3 / 2)]))) None None None) =
     Inr \<lparr>resp_items =
            [\<lparr>item_id = JNum (3 / 2), item_text = Template ''Item '' (JNum (3 / 2)),
              item_selected = False\<rparr>],
          resp_total = 1, resp_hasMore = False, resp_page = Num 1, resp_limit = 1\<rparr>"
    by (simp only: accepted snd_conv listItems_custom_fraction fst_conv item)
  have thrown: "setOrder initial_state (JArr [JObj [(''toString'', JNum 1)]]) =
     (Inl Failed_to_update_order, initial_state)"
    by (simp add: setOrder_def)
  from accepted served thrown show ?thesis by (intro conjI)
qed

text \<open>
  Claim C1, as amended. After the order 5, 3, 9 is accepted, the first page with limit 5
  and no search term holds exactly the three items 5, 3, 9, in that order, with total 3
  and no further page: the ids paged through are the custom order alone.
\<close>

theorem listItems_after_setOrder:
  "fst (setOrder st (JArr [JNum 5, JNum 3, JNum 9])) = Inr (Order_updated 3) \<and>
   fst (listItems (snd (setOrder st (JArr [JNum 5, JNum 3, JNum 9])))
          (Some (QStr ''1'')) (Some (QStr ''5'')) (Some (QStr ''''))) =
     Inr \<lparr>resp_items = map (generateItem st) [JNum 5, JNum 3, JNum 9],
          resp_total = 3, resp_hasMore = False, resp_page = Num 1, resp_limit = 3\<rparr>"
proof -
  let ?order = "JArr [JNum 5, JNum 3, JNum 9]"
  have accepted: "fst (setOrder st ?order) = Inr (Order_updated 3)"
    by (simp add: setOrder_539)
  have after: "snd (setOrder st ?order) =
      st\<lparr>customOrder := Some [JNum 5, JNum 3, JNum 9], searchCache := Map.empty\<rparr>"
    by (simp add: setOrder_539)
  from accepted show ?thesis
    by (simp only: after listItems_custom_539 fst_conv simp_thms)
qed

text \<open>
  The claim as stated expects five items, the ids 5, 3, 9, 1, 2; from the initial state
  the response holds three.
\<close>

theorem listItems_after_setOrder_counterexample:
  "fst (listItems (snd (setOrder initial_state (JArr [JNum 5, JNum 3, JNum 9])))
          (Some (QStr ''1'')) (Some (QStr ''5'')) (Some (QStr ''''))) =
     Inr \<lparr>resp_items =
            [\<lparr>item_id = JNum 5, item_text = Template ''Item '' (JNum 5), item_selected = False\<rparr>,
             \<lparr>item_id = JNum 3, item_text = Template ''Item '' (JNum 3), item_selected = False\<rparr>,
             \<lparr>item_id = JNum 9, item_text = Template ''Item '' (JNum 9), item_selected = False\<rparr>],
          resp_total = 3, resp_hasMore = False, resp_page = Num 1, resp_limit = 3\<rparr>"
proof -
  have "generateItem initial_state i =
      \<lparr>item_id = i, item_text = Template ''Item '' i, item_selected = False\<rparr>" for i
    by (simp add: generateItem_def initial_state_def)
  then show ?thesis
    by (simp add: setOrder_539 listItems_custom_539)
qed

text \<open>
  Claim C9. The empty order is accepted and stored; the state query then reports a
  custom order, while a listing with no search term pages through the ids 1..1000000 in
  ascending order with total 1000000, as the first default page shows.
\<close>

theorem empty_order_is_present_without_effect:
  "setOrder st (JArr []) =
     (Inr (Order_updated 0), st\<lparr>customOrder := Some [], searchCache := Map.empty\<rparr>) \<and>
   hasCustomOrder (getState (snd (setOrder st (JArr [])))) \<and>
   selectIds (snd (setOrder st (JArr []))) [] =
     ((universe, 1000000), snd (setOrder st (JArr []))) \<and>
   universe = map idNum [1..<1000001] \<and>
   fst (listItems (snd (setOrder st (JArr []))) None None None) =
     Inr \<lparr>resp_items = map (generateItem st) (map idNum [1..<21]),
          resp_total = 1000000, resp_hasMore = True, resp_page = Num 1, resp_limit = 20\<rparr>"
proof -
  let ?st = "st\<lparr>customOrder := Some [], searchCache := Map.empty\<rparr>"
  have so: "setOrder st (JArr []) = (Inr (Order_updated 0), ?st)"
    by (simp add: setOrder_def)
  have sel: "selectIds ?st [] = ((universe, 1000000), ?st)"
    by (simp add: selectIds_def)
  have g: "generateItem ?st = generateItem st"
    by (rule generateItem_cong) simp
  have sl: "slice universe (Num 0) (Num 20) = map idNum [1..<21]"
    using slice_Num [of 0 20 universe]
    by (simp add: universe_upt take_map del: upt_rec_numeral)
  have li: "fst (listItems ?st None None None) =
     Inr \<lparr>resp_items = map (generateItem st) (map idNum [1..<21]),
          resp_total = 1000000, resp_hasMore = True, resp_page = Num 1, resp_limit = 20\<rparr>"
    by (simp add: listItems_Some [OF normalizeSearch_examples(1)] sel g
        startIndexOf_def endIndexOf_def page_examples sl del: upt_rec_numeral)
  from so sel li universe_upt show ?thesis
    by (simp add: getState_def del: upt_rec_numeral)
qed

section \<open>Claims about paging\<close>

text \<open>
  Claim C6, at the inputs that refute it. For the page parameter \<^verbatim>\<open>abc\<close> the page
  number is NaN, not a number clamped to at least 1, and for the limit parameter
  \<^verbatim>\<open>abc\<close> the limit is NaN, not a number in 1..100; either request is answered with
  no item, although the catalog holds 1000000.
\<close>

theorem listItems_nonnumeric_page:
  "listItems initial_state (Some (QStr ''abc'')) None None =
     (Inr \<lparr>resp_items = [], resp_total = 1000000, resp_hasMore = False, resp_page = NaN,
           resp_limit = 0\<rparr>,
      initial_state) \<and>
   pageNumOf (Some (QStr ''abc'')) = NaN \<and>
   listItems initial_state None (Some (QStr ''abc'')) None =
     (Inr \<lparr>resp_items = [], resp_total = 1000000, resp_hasMore = False, resp_page = Num 1,
           resp_limit = 0\<rparr>,
      initial_state) \<and>
   limitNumOf (Some (QStr ''abc'')) = NaN"
proof -
  have sel: "selectIds initial_state [] = ((universe, 1000000), initial_state)"
    by (simp add: selectIds_def initial_state_def)
  have "listItems initial_state (Some (QStr ''abc'')) None None =
     (Inr \<lparr>resp_items = [], resp_total = 1000000, resp_hasMore = False, resp_page = NaN,
           resp_limit = 0\<rparr>,
      initial_state)"
    by (simp add: listItems_Some [OF normalizeSearch_examples(1)] sel
        startIndexOf_def endIndexOf_def page_examples slice_NaN sliceIndex_def)
  moreover have "listItems initial_state None (Some (QStr ''abc'')) None =
     (Inr \<lparr>resp_items = [], resp_total = 1000000, resp_hasMore = False, resp_page = Num 1,
           resp_limit = 0\<rparr>,
      initial_state)"
    by (simp add: listItems_Some [OF normalizeSearch_examples(1)] sel
        startIndexOf_def endIndexOf_def page_examples slice_NaN sliceIndex_def)
  ultimately show ?thesis
    by (simp add: page_examples)
qed

text \<open>
  What holds of the claim: the only error answer is the internal one, for a search
  parameter that is not a string, and a page or limit that parses to a number is clamped.
\<close>

lemma pageNumOf_clamped: "pageNumOf page = Num p \<Longrightarrow> 1 \<le> p"
  by (cases "queryInt 1 page") (auto simp: pageNumOf_def)

lemma limitNumOf_clamped: "limitNumOf limit = Num l \<Longrightarrow> 1 \<le> l \<and> l \<le> 100"
  by (cases "queryInt 20 limit") (auto simp: limitNumOf_def)

lemma listItems_error:
  "fst (listItems st page limit search) = Inl e \<Longrightarrow>
   e = Internal_server_error \<and> normalizeSearch search = None"
  by (cases "normalizeSearch search") (auto simp: listItems_Some listItems_None)

lemma length_slice_from:
  assumes "0 \<le> s" "0 \<le> l"
  shows "int (length (slice xs (Num s) (Num (s + l)))) = max 0 (min l (int (length xs) - s))"
  using assms slice_Num [OF assms, of xs] by (auto simp: min_def max_def)

lemma length_slice_Num:
  assumes "1 \<le> p" "1 \<le> l"
  shows "int (length (slice xs (Num ((p - 1) * l)) (Num ((p - 1) * l + l)))) =
         max 0 (min l (int (length xs) - (p - 1) * l))"
  using assms by (intro length_slice_from) simp_all

lemma listItems_custom_539_page2:
  "listItems (st\<lparr>customOrder := Some [JNum 5, JNum 3, JNum 9], searchCache := Map.empty\<rparr>)
     (Some (QStr ''2'')) (Some (QStr ''5'')) (Some (QStr '''')) =
   (Inr \<lparr>resp_items = [], resp_total = 3, resp_hasMore = False, resp_page = Num 2,
         resp_limit = 0\<rparr>,
    st\<lparr>customOrder := Some [JNum 5, JNum 3, JNum 9], searchCache := Map.empty\<rparr>)"
proof -
  let ?st = "st\<lparr>customOrder := Some [JNum 5, JNum 3, JNum 9], searchCache := Map.empty\<rparr>"
  have sel: "selectIds ?st [] = (([JNum 5, JNum 3, JNum 9], 3), ?st)"
    by (simp add: selectIds_def)
  have sl: "slice [JNum 5, JNum 3, JNum 9] (Num 5) (Num 10) = []"
    by (simp add: slice_def sliceIndex_def)
  show ?thesis
    by (simp add: listItems_Some [OF normalizeSearch_examples(2)] sel
        startIndexOf_def endIndexOf_def page_examples sl)
qed

text \<open>
  Claim C8. In every response the limit field is the number of items in the response.
  When page and limit are numbers it is the part of the requested limit that the id
  sequence still covers from the start of the page: less than the requested limit on a
  last partial page, and 0 past the end.
\<close>

theorem listItems_limit_is_count:
  assumes "fst (listItems st page limit search) = Inr r"
  shows "resp_limit r = length (resp_items r) \<and>
         (\<forall>t p l. normalizeSearch search = Some t \<and> pageNumOf page = Num p \<and>
                  limitNumOf limit = Num l \<longrightarrow>
            int (resp_limit r) =
              max 0 (min l (int (length (fst (fst (selectIds st t)))) - (p - 1) * l)))"
proof (cases "normalizeSearch search")
  case None
  with assms show ?thesis by (simp add: listItems_None)
next
  case (Some t)
  note li = listItems_Some [OF Some, of st page limit]
  from assms li have r: "resp_limit r = length (resp_items r)"
    and l: "resp_limit r = length (slice (fst (fst (selectIds st t)))
                                   (startIndexOf page limit) (endIndexOf page limit))"
    by auto
  have "int (resp_limit r) = max 0 (min l (int (length (fst (fst (selectIds st t)))) - (p - 1) * l))"
    if "pageNumOf page = Num p" "limitNumOf limit = Num l" for p l
    using that pageNumOf_clamped [OF that(1)] limitNumOf_clamped [OF that(2)] l
    by (simp add: startIndexOf_def endIndexOf_def length_slice_Num)
  with r Some show ?thesis by auto
qed

text \<open>
  With the custom order 5, 3, 9 and limit 5: page 1 is partial, with limit field 3;
  page 2 is past the end, with limit field 0.
\<close>

theorem listItems_limit_is_count_witness:
  "fst (listItems (initial_state\<lparr>customOrder := Some [JNum 5, JNum 3, JNum 9], searchCache := Map.empty\<rparr>)
     (Some (QStr ''1'')) (Some (QStr ''5'')) (Some (QStr ''''))) =
     Inr \<lparr>resp_items = map (generateItem initial_state) [JNum 5, JNum 3, JNum 9],
          resp_total = 3, resp_hasMore = False, resp_page = Num 1, resp_limit = 3\<rparr> \<and>
   normalizeSearch (Some (QStr '''')) = Some [] \<and>
   pageNumOf (Some (QStr ''1'')) = Num 1 \<and>
   limitNumOf (Some (QStr ''5'')) = Num 5 \<and>
   resp_limit \<lparr>resp_items = map (generateItem initial_state) [JNum 5, JNum 3, JNum 9],
          resp_total = 3, resp_hasMore = False, resp_page = Num 1, resp_limit = 3\<rparr> =
     length (resp_items \<lparr>resp_items = map (generateItem initial_state) [JNum 5, JNum 3, JNum 9],
          resp_total = 3, resp_hasMore = False, resp_page = Num 1, resp_limit = 3\<rparr>) \<and>
   (3::int) = max 0 (min 5 (int (length (fst (fst (selectIds
       (initial_state\<lparr>customOrder := Some [JNum 5, JNum 3, JNum 9], searchCache := Map.empty\<rparr>)
       [])))) - (1 - 1) * 5)) \<and>
   fst (listItems (initial_state\<lparr>customOrder := Some [JNum 5, JNum 3, JNum 9], searchCache := Map.empty\<rparr>)
     (Some (QStr ''2'')) (Some (QStr ''5'')) (Some (QStr ''''))) =
     Inr \<lparr>resp_items = [], resp_total = 3, resp_hasMore = False, resp_page = Num 2,
          resp_limit = 0\<rparr> \<and>
   pageNumOf (Some (QStr ''2'')) = Num 2 \<and>
   (0::int) = max 0 (min 5 (int (length (fst (fst (selectIds
       (initial_state\<lparr>customOrder := Some [JNum 5, JNum 3, JNum 9], searchCache := Map.empty\<rparr>)
       [])))) - (2 - 1) * 5))"
proof -
  let ?st = "initial_state\<lparr>customOrder := Some [JNum 5, JNum 3, JNum 9], searchCache := Map.empty\<rparr>"
  let ?r1 = "\<lparr>resp_items = map (generateItem initial_state) [JNum 5, JNum 3, JNum 9],
          resp_total = 3, resp_hasMore = False, resp_page = Num 1, resp_limit = 3\<rparr>"
  let ?r2 = "\<lparr>resp_items = [], resp_total = 3, resp_hasMore = False, resp_page = Num 2,
          resp_limit = 0\<rparr>"
  have h1: "fst (listItems ?st (Some (QStr ''1'')) (Some (QStr ''5'')) (Some (QStr ''''))) = Inr ?r1"
    by (simp add: listItems_custom_539)
  have h2: "fst (listItems ?st (Some (QStr ''2'')) (Some (QStr ''5'')) (Some (QStr ''''))) = Inr ?r2"
    by (simp add: listItems_custom_539_page2)
  note n = normalizeSearch_examples(2)
  note p1 = page_examples(2) and p2 = page_examples(3) and l = page_examples(6)
  from listItems_limit_is_count [OF h1]
  have a: "resp_limit ?r1 = length (resp_items ?r1)"
    and b: "int (resp_limit ?r1) =
        max 0 (min 5 (int (length (fst (fst (selectIds ?st [])))) - (1 - 1) * 5))"
    using n p1 l by blast+
  from listItems_limit_is_count [OF h2]
  have c: "int (resp_limit ?r2) =
        max 0 (min 5 (int (length (fst (fst (selectIds ?st [])))) - (2 - 1) * 5))"
    using n p2 l by blast
  from h1 h2 n p1 p2 l a b c show ?thesis by simp
qed

section \<open>Claims about search and custom order\<close>

lemma selectIds_sound:
  "cacheSound st \<Longrightarrow> t \<noteq> [] \<Longrightarrow>
   fst (selectIds st t) = (map idNum (firstMatches t), length (firstMatches t))"
  using searchIds_sound [of st t] by (auto simp: selectIds_def split: prod.splits)

lemma fst_selectIds_search:
  "t \<noteq> [] \<Longrightarrow> searchCache st' = searchCache st \<Longrightarrow>
   fst (selectIds st' t) = fst (selectIds st t) \<and>
   searchCache (snd (selectIds st' t)) = searchCache (snd (selectIds st t))"
  by (simp add: selectIds_def searchIds_def Let_def split: option.splits)

lemma sorted_firstMatches: "sorted_wrt (<) (firstMatches t)"
  unfolding firstMatches_def
  by (intro sorted_wrt_take sorted_wrt_filter) simp

lemma sorted_wrt_slice: "sorted_wrt R xs \<Longrightarrow> sorted_wrt R (slice xs a b)"
  unfolding slice_def Let_def
  by (intro sorted_wrt_take sorted_wrt_drop)

text \<open>
  Claim C7. For a non-empty normalized search term, two states that differ only in the
  custom order give the same response and leave the same cache; in every state of a run
  the ids of the returned items are ascending.
\<close>

theorem search_ignores_customOrder:
  assumes "normalizeSearch search = Some t" and "t \<noteq> []"
    and "selectedItems st' = selectedItems st" and "searchCache st' = searchCache st"
  shows "fst (listItems st' page limit search) = fst (listItems st page limit search) \<and>
         searchCache (snd (listItems st' page limit search)) =
           searchCache (snd (listItems st page limit search)) \<and>
         (reachable st \<longrightarrow>
            (\<exists>r ns. fst (listItems st page limit search) = Inr r \<and>
                    map item_id (resp_items r) = map idNum ns \<and> sorted_wrt (<) ns))"
proof (intro conjI impI)
  note sel = fst_selectIds_search [OF assms(2,4)]
  have g: "generateItem st' = generateItem st"
    using assms(3) by (rule generateItem_cong)
  show "fst (listItems st' page limit search) = fst (listItems st page limit search)"
    by (simp add: listItems_Some [OF assms(1)] sel g)
  show "searchCache (snd (listItems st' page limit search)) =
        searchCache (snd (listItems st page limit search))"
    by (simp add: listItems_Some [OF assms(1)] sel)
next
  assume "reachable st"
  then have "cacheSound st" by (rule reachable_cacheSound)
  then have sel: "fst (selectIds st t) = (map idNum (firstMatches t), length (firstMatches t))"
    using assms(2) by (rule selectIds_sound)
  let ?ns = "slice (firstMatches t) (startIndexOf page limit) (endIndexOf page limit)"
  let ?r = "\<lparr>resp_items = map (generateItem st) (map idNum ?ns),
             resp_total = length (firstMatches t),
             resp_hasMore = num_less (endIndexOf page limit) (length (firstMatches t)),
             resp_page = pageNumOf page,
             resp_limit = length ?ns\<rparr>"
  have "fst (listItems st page limit search) = Inr ?r"
    by (simp add: listItems_Some [OF assms(1)] sel slice_map)
  moreover have "map item_id (resp_items ?r) = map idNum ?ns"
    by (simp add: item_id_generateItem del: map_map)
  moreover have "sorted_wrt (<) ?ns"
    by (rule sorted_wrt_slice) (rule sorted_firstMatches)
  ultimately show "\<exists>r ns. fst (listItems st page limit search) = Inr r \<and>
                    map item_id (resp_items r) = map idNum ns \<and> sorted_wrt (<) ns"
    by blast
qed

text \<open>The term 7, in the initial state and after the order 5, 3, 9 is accepted.\<close>

theorem search_ignores_customOrder_witness:
  "normalizeSearch (Some (QStr ''7'')) = Some ''7'' \<and> ''7'' \<noteq> [] \<and>
   selectedItems initial_state = selectedItems (snd (setOrder initial_state (JArr [JNum 5, JNum 3, JNum 9]))) \<and>
   searchCache initial_state = searchCache (snd (setOrder initial_state (JArr [JNum 5, JNum 3, JNum 9]))) \<and>
   customOrder initial_state \<noteq> customOrder (snd (setOrder initial_state (JArr [JNum 5, JNum 3, JNum 9]))) \<and>
   reachable (snd (setOrder initial_state (JArr [JNum 5, JNum 3, JNum 9]))) \<and>
   fst (listItems initial_state None None (Some (QStr ''7''))) =
     fst (listItems (snd (setOrder initial_state (JArr [JNum 5, JNum 3, JNum 9]))) None None
            (Some (QStr ''7''))) \<and>
   (\<exists>r ns. fst (listItems (snd (setOrder initial_state (JArr [JNum 5, JNum 3, JNum 9]))) None None
                  (Some (QStr ''7''))) = Inr r \<and>
           map item_id (resp_items r) = map idNum ns \<and> sorted_wrt (<) ns)"
proof -
  let ?st = "snd (setOrder initial_state (JArr [JNum 5, JNum 3, JNum 9]))"
  note n = normalizeSearch_examples(3)
  have ne: "''7'' \<noteq> []" by simp
  have s: "selectedItems initial_state = selectedItems ?st"
    by (simp add: setOrder_539)
  have c: "searchCache initial_state = searchCache ?st"
    by (simp add: setOrder_539 initial_state_def)
  have o: "customOrder initial_state \<noteq> customOrder ?st"
    by (simp add: setOrder_539 initial_state_def)
  have r: "reachable ?st"
    by (intro reach_order reach_init)
  from search_ignores_customOrder [OF n ne s c, of None None] r n ne s c o
  show ?thesis by blast
qed

end
